theory Spec2Isabelle
  imports Main "HOL-Library.Word" "HOL-Library.List_Lexorder"
begin

unbundle bit_operations_syntax

section \<open>Basic types\<close>

type_synonym byte = "8 word"
type_synonym u64 = "64 word"
type_synonym bytes = "byte list"

text \<open>
  A Go panic (or a fatal assertion) is a value of the model, so that a function that may
  panic returns \<open>panic + 'a\<close>.
\<close>

datatype panic = Panic

section \<open>The sroar bitmap, as the codec uses it\<close>

text \<open>
  \<open>sroar.Bitmap\<close> is a library type outside this repository. The codec only relies on it
  being a set of 64-bit UIDs, so the model is the set itself; every set of 64-bit words is
  finite. \<open>ToArray\<close> lists the members in ascending order.
\<close>

type_synonym sroar_Bitmap = "u64 set"

definition NewBitmap :: "sroar_Bitmap" where
  "NewBitmap = {}"

definition sroar_Set :: "sroar_Bitmap \<Rightarrow> u64 \<Rightarrow> sroar_Bitmap" where
  "sroar_Set bm x = insert x bm"

definition sroar_SetMany :: "sroar_Bitmap \<Rightarrow> u64 list \<Rightarrow> sroar_Bitmap" where
  "sroar_SetMany bm uids = bm \<union> set uids"

definition sroar_ToArray :: "sroar_Bitmap \<Rightarrow> u64 list" where
  "sroar_ToArray bm = sorted_list_of_set bm"

definition sroar_GetCardinality :: "sroar_Bitmap \<Rightarrow> nat" where
  "sroar_GetCardinality bm = card bm"

definition sroar_FromSortedList :: "u64 list \<Rightarrow> sroar_Bitmap" where
  "sroar_FromSortedList uids = set uids"

definition sroar_Remove :: "sroar_Bitmap \<Rightarrow> u64 \<Rightarrow> sroar_Bitmap" where
  "sroar_Remove bm x = Set.filter (\<lambda>u. u \<noteq> x) bm"

text \<open>
  sroar documents \<open>Bitmap.RemoveRange(lo, hi)\<close> as removing the half-open interval
  \<open>[lo, hi)\<close>, and it panics when \<open>lo > hi\<close>.
\<close>

definition sroar_RemoveRange :: "sroar_Bitmap \<Rightarrow> u64 \<Rightarrow> u64 \<Rightarrow> panic + sroar_Bitmap" where
  "sroar_RemoveRange bm lo hi =
     (if lo > hi then Inl Panic
      else Inr (Set.filter (\<lambda>u. \<not> (lo \<le> u \<and> u < hi)) bm))"

text \<open>
  The serialised form of a bitmap (\<open>ToBuffer\<close>, \<open>ToBufferWithCopy\<close>, \<open>FromBuffer\<close>,
  \<open>FromBufferWithCopy\<close>) is sroar's own and is not fixed here: the two directions are
  parameters of the codec functions that use them. The copying and the borrowing variant
  yield the same bytes and the same bitmap; they differ only in aliasing.
\<close>

record sroar_buffers =
  ToBuffer :: "sroar_Bitmap \<Rightarrow> bytes"
  FromBuffer :: "bytes \<Rightarrow> sroar_Bitmap"







section \<open>Go's \<open>encoding/binary\<close> varints\<close>

text \<open>
  \<open>binary.PutUvarint\<close> and \<open>binary.Uvarint\<close> are Go's standard library. \<open>PutUvarint\<close>
  returns the bytes it writes (the source writes them into a 16-byte scratch slice and
  returns their number; \<open>length_PutUvarint_le_10\<close> shows the slice is never overrun).
  \<open>Uvarint\<close> returns the value and the number of bytes read; the number is 0 when the
  buffer ends early and negative on overflow, the value being 0 in both cases.
\<close>

function PutUvarint :: "u64 \<Rightarrow> bytes" where
  "PutUvarint x =
     (if x \<ge> 0x80 then (ucast x OR 0x80) # PutUvarint (drop_bit 7 x) else [ucast x])"
  by pat_completeness auto
termination
proof (relation "measure unat")
  show "wf (measure unat)" by simp
next
  fix x :: u64
  assume "0x80 \<le> x"
  then have "0x80 \<le> unat x" by (simp add: word_le_nat_alt)
  then have "unat x div 2 ^ 7 < unat x" by simp
  then show "(drop_bit 7 x, x) \<in> measure unat"
    by (simp add: drop_bit_eq_div unat_div)
qed

declare PutUvarint.simps [simp del]

fun Uvarint_loop :: "bytes \<Rightarrow> nat \<Rightarrow> u64 \<Rightarrow> nat \<Rightarrow> u64 \<times> int" where
  "Uvarint_loop [] i x s = (0, 0)"
| "Uvarint_loop (b # bs) i x s =
    (if i = 10 then (0, - (int i + 1))
     else if b < 0x80 then
       (if i = 9 \<and> b > 1 then (0, - (int i + 1))
        else (x OR push_bit s (ucast b), int i + 1))
     else Uvarint_loop bs (i + 1) (x OR push_bit s (ucast (b AND 0x7f))) (s + 7))"

definition Uvarint :: "bytes \<Rightarrow> u64 \<times> int" where
  "Uvarint buf = Uvarint_loop buf 0 0 0"


lemma continuation_byte_ge: "\<not> ((ucast (y::u64) OR 0x80 :: byte) < 0x80)"
proof -
  have "(0x80 :: byte) \<le> ucast y OR 0x80" by (rule le_word_or1)
  then show ?thesis by (simp add: not_less)
qed



lemma bit_0x80: "bit (0x80 :: byte) n \<longleftrightarrow> n = 7"
proof -
  have e: "(0x80 :: byte) = 2 ^ 7" by simp
  show ?thesis by (subst e) (simp only: bit_exp_iff, auto)
qed

lemma bit_0x7f: "bit (0x7f :: byte) n \<longleftrightarrow> n < 7"
proof -
  have e: "(0x7f :: byte) = mask 7" by (simp add: mask_eq_exp_minus_1)
  show ?thesis by (subst e) (simp only: bit_mask_iff, auto)
qed

lemma continuation_byte_low: "(ucast ((ucast (y::u64) OR 0x80 :: byte) AND 0x7f) :: u64) = take_bit 7 y"
  by (rule bit_eqI) (auto simp: bit_simps bit_0x80 bit_0x7f simp del: bit_numeral_word_iff)

lemma push_bit_take_drop_7: "push_bit s (take_bit 7 (y::u64)) OR push_bit (s + 7) (drop_bit 7 y) = push_bit s y"
proof (rule bit_eqI)
  fix n assume "possible_bit TYPE(u64) n"
  show "bit (push_bit s (take_bit 7 y) OR push_bit (s + 7) (drop_bit 7 y)) n = bit (push_bit s y) n"
  proof (cases "n < s + 7")
    case True then show ?thesis by (auto simp: bit_simps)
  next
    case False
    then have "7 + (n - (s + 7)) = n - s" by simp
    with False show ?thesis by (auto simp: bit_simps)
  qed
qed


lemma take_bit_7_small: "(y::u64) < 0x80 \<Longrightarrow> take_bit 7 y = y"
  using less_mask_eq [of y 7] by (simp add: take_bit_eq_mask)

lemma ucast_small_less: "(y::u64) < 0x80 \<Longrightarrow> (ucast y :: byte) < 0x80"
proof -
  assume "y < 0x80"
  then have "unat y < 128" by (simp add: word_less_nat_alt)
  moreover have "unat (ucast y :: byte) \<le> unat y"
    by (simp add: unsigned_ucast_eq)
  ultimately have "unat (ucast y :: byte) < 128" by (rule le_less_trans [rotated])
  then show ?thesis by (simp add: word_less_nat_alt)
qed

lemma ucast_ucast_small: "(y::u64) < 0x80 \<Longrightarrow> (ucast (ucast y :: byte) :: u64) = y"
proof -
  assume "y < 0x80"
  then have e: "take_bit 7 y = y" by (rule take_bit_7_small)
  have "(ucast (ucast (take_bit 7 y) :: byte) :: u64) = take_bit 7 y"
    by (rule bit_eqI) (auto simp: bit_simps)
  then show ?thesis by (simp add: e)
qed


lemma Uvarint_PutUvarint_loop:
  "i \<le> 9 \<Longrightarrow> unat y < 2 ^ (64 - 7 * i) \<Longrightarrow>
   Uvarint_loop (PutUvarint y @ rest) i x (7 * i)
     = (x OR push_bit (7 * i) y, int i + int (length (PutUvarint y)))"
proof (induction y arbitrary: i x rule: PutUvarint.induct)
  case (1 y)
  show ?case
  proof (cases "0x80 \<le> y")
    case True
    have i8: "i < 9"
    proof (rule ccontr)
      assume "\<not> i < 9"
      with "1.prems" have "unat y < 2" by simp
      with True show False by (simp add: word_le_nat_alt)
    qed
    have put: "PutUvarint y = (ucast y OR 0x80) # PutUvarint (drop_bit 7 y)"
      using True by (subst PutUvarint.simps) simp
    have "unat (drop_bit 7 y) = unat y div 2 ^ 7"
      by (simp add: drop_bit_eq_div unat_div)
    moreover have "(2::nat) ^ (64 - 7 * i) = 2 ^ 7 * 2 ^ (64 - 7 * (i + 1))"
    proof -
      have "64 - 7 * i = 7 + (64 - 7 * (i + 1))" using i8 by simp
      then show ?thesis by (simp only: power_add)
    qed
    ultimately have small: "unat (drop_bit 7 y) < 2 ^ (64 - 7 * (i + 1))"
      using "1.prems"(2) by (simp add: less_mult_imp_div_less mult.commute)
    have s7: "7 * (i + 1) = 7 * i + 7" by simp
    have le: "i + 1 \<le> 9" using i8 by simp
    have ih: "Uvarint_loop (PutUvarint (drop_bit 7 y) @ rest) (i + 1) x' (7 * i + 7)
        = (x' OR push_bit (7 * i + 7) (drop_bit 7 y),
           int (i + 1) + int (length (PutUvarint (drop_bit 7 y))))" for x'
      using "1.IH" [OF True le small, of x'] unfolding s7 .
    have step: "Uvarint_loop (PutUvarint y @ rest) i x (7 * i)
        = Uvarint_loop (PutUvarint (drop_bit 7 y) @ rest) (i + 1)
            (x OR push_bit (7 * i) (take_bit 7 y)) (7 * i + 7)"
      using i8 by (simp add: put continuation_byte_ge continuation_byte_low)
    have len: "int i + int (length (PutUvarint y))
        = int (i + 1) + int (length (PutUvarint (drop_bit 7 y)))"
      by (simp add: put)
    have val: "(x OR push_bit (7 * i) (take_bit 7 y)) OR push_bit (7 * i + 7) (drop_bit 7 y)
        = x OR push_bit (7 * i) y"
      by (simp only: or.assoc push_bit_take_drop_7)
    show ?thesis
      by (simp only: step ih len val)
  next
    case False
    then have lt: "y < 0x80" by (simp add: not_le)
    have put: "PutUvarint y = [ucast y]"
      using False by (subst PutUvarint.simps) simp
    have b1: "i = 9 \<Longrightarrow> \<not> (1 < (ucast y :: byte))"
    proof -
      assume "i = 9"
      with "1.prems" have "unat y < 2" by simp
      moreover have "unat (ucast y :: byte) \<le> unat y"
        by (simp add: unsigned_ucast_eq)
      ultimately have "unat (ucast y :: byte) < 2" by (rule le_less_trans [rotated])
      then show ?thesis by (simp add: word_less_nat_alt)
    qed
    show ?thesis
      using "1.prems"(1) b1 by (auto simp: put ucast_small_less [OF lt] ucast_ucast_small [OF lt])
  qed
qed

lemma PutUvarint_not_Nil: "PutUvarint y \<noteq> []"
  by (subst PutUvarint.simps) simp

lemma length_PutUvarint_bound:
  "0 < k \<Longrightarrow> unat y < 2 ^ (7 * k) \<Longrightarrow> length (PutUvarint y) \<le> k"
proof (induction y arbitrary: k rule: PutUvarint.induct)
  case (1 y)
  show ?case
  proof (cases "0x80 \<le> y")
    case True
    then have "128 \<le> unat y" by (simp add: word_le_nat_alt)
    with "1.prems" have k1: "1 < k"
      by (cases "k = 1") auto
    then obtain k' where k': "k = Suc k'" "0 < k'" by (cases k) auto
    have "unat (drop_bit 7 y) = unat y div 2 ^ 7"
      by (simp add: drop_bit_eq_div unat_div)
    moreover have "(2::nat) ^ (7 * k) = 2 ^ 7 * 2 ^ (7 * k')"
      by (simp only: k' mult_Suc_right power_add)
    ultimately have "unat (drop_bit 7 y) < 2 ^ (7 * k')"
      using "1.prems"(2) by (simp add: less_mult_imp_div_less mult.commute)
    from "1.IH" [OF True k'(2) this] show ?thesis
      using True k' by (subst PutUvarint.simps) simp
  next
    case False
    then show ?thesis using "1.prems" by (subst PutUvarint.simps) simp
  qed
qed

lemma length_PutUvarint_le_10: "length (PutUvarint y) \<le> 10"
proof -
  have "unat y < 2 ^ 64" using unsigned_less [of y] by simp
  also have "(2::nat) ^ 64 \<le> 2 ^ (7 * 10)" by simp
  finally show ?thesis by (intro length_PutUvarint_bound) simp_all
qed

lemma Uvarint_PutUvarint:
  "Uvarint (PutUvarint y @ rest) = (y, int (length (PutUvarint y)))"
proof -
  have "unat y < 2 ^ 64" using unsigned_less [of y] by simp
  then have "unat y < 2 ^ (64 - 7 * 0)" by simp
  from Uvarint_PutUvarint_loop [OF _ this, of rest 0] show ?thesis
    by (simp add: Uvarint_def)
qed

lemma Uvarint_loop_pos:
  "Uvarint_loop buf i x s = (uid, n) \<Longrightarrow> uid \<noteq> 0 \<Longrightarrow> 0 < n \<and> n \<le> int i + int (length buf)"
proof (induction buf arbitrary: i x s)
  case Nil
  then show ?case by simp
next
  case (Cons b bs)
  show ?case
  proof (cases "i \<noteq> 10 \<and> \<not> b < 0x80")
    case True
    with Cons.prems(1)
    have "Uvarint_loop bs (i + 1) (x OR push_bit s (ucast (b AND 0x7f))) (s + 7) = (uid, n)"
      by simp
    from Cons.IH [OF this Cons.prems(2)] show ?thesis by simp
  next
    case False
    with Cons.prems show ?thesis by (auto split: if_splits)
  qed
qed

lemma Uvarint_pos:
  "Uvarint buf = (uid, n) \<Longrightarrow> uid \<noteq> 0 \<Longrightarrow> 0 < n \<and> n \<le> int (length buf)"
  using Uvarint_loop_pos [of buf 0 0 0 uid n] by (simp add: Uvarint_def)

section \<open>codec/codec.go\<close>

text \<open>
  \<open>pb.List\<close> carries the two encodings of a UID list. A nil slice and an empty slice are
  the same list here: the codec only ever tests \<open>len\<close>. A \<open>*pb.List\<close> is an option,
  \<open>None\<close> for nil.
\<close>

record pb_List =
  Bitmap :: bytes
  SortedUids :: "u64 list"

definition ToList :: "sroar_buffers \<Rightarrow> sroar_Bitmap \<Rightarrow> pb_List" where
  "ToList sr rm = \<lparr>Bitmap = ToBuffer sr rm, SortedUids = []\<rparr>"

definition ToSortedList :: "sroar_Bitmap \<Rightarrow> pb_List" where
  "ToSortedList rm = \<lparr>Bitmap = [], SortedUids = sroar_ToArray rm\<rparr>"

definition FromList :: "sroar_buffers \<Rightarrow> pb_List option \<Rightarrow> sroar_Bitmap" where
  "FromList sr l =
     (case l of
        None \<Rightarrow> NewBitmap
      | Some l \<Rightarrow>
          if length (Bitmap l) > 0 then FromBuffer sr (Bitmap l)
          else if length (SortedUids l) > 0 then sroar_SetMany NewBitmap (SortedUids l)
          else NewBitmap)"

definition FromListNoCopy :: "sroar_buffers \<Rightarrow> pb_List option \<Rightarrow> sroar_Bitmap" where
  "FromListNoCopy sr l =
     (case l of
        None \<Rightarrow> NewBitmap
      | Some l \<Rightarrow>
          if length (Bitmap l) > 0 then FromBuffer sr (Bitmap l)
          else if length (SortedUids l) > 0 then sroar_SetMany NewBitmap (SortedUids l)
          else NewBitmap)"

definition ListCardinality :: "sroar_buffers \<Rightarrow> pb_List option \<Rightarrow> u64" where
  "ListCardinality sr l =
     (case l of
        None \<Rightarrow> 0
      | Some l' \<Rightarrow>
          if length (SortedUids l') > 0 then of_nat (length (SortedUids l'))
          else of_nat (sroar_GetCardinality (FromListNoCopy sr l)))"

definition GetUids :: "sroar_buffers \<Rightarrow> pb_List option \<Rightarrow> u64 list" where
  "GetUids sr l =
     (case l of
        None \<Rightarrow> []
      | Some l' \<Rightarrow>
          if length (SortedUids l') > 0 then SortedUids l'
          else sroar_ToArray (FromListNoCopy sr l))"

definition OneUid :: "sroar_buffers \<Rightarrow> u64 \<Rightarrow> pb_List" where
  "OneUid sr uid = ToList sr (sroar_Set NewBitmap uid)"

definition RemoveRange :: "sroar_Bitmap \<Rightarrow> u64 \<Rightarrow> u64 \<Rightarrow> panic + sroar_Bitmap" where
  "RemoveRange bm from to =
     (case sroar_RemoveRange bm from to of
        Inl p \<Rightarrow> Inl p
      | Inr bm' \<Rightarrow> Inr (sroar_Remove bm' to))"

text \<open>
  \<open>DecodeToBuffer\<close>: the bitmap's \<open>ManyIterator\<close> hands out the UIDs in ascending order,
  at most 64 per \<open>NextMany\<close> call; the iterator is the list of UIDs not yet handed out.
  \<open>z.Buffer.Write\<close> appends and never fails, so \<open>x.Check2\<close> never fires. \<open>lst\<close> is the
  source's \<open>last\<close>; the subtraction wraps as \<open>uint64\<close> does.
\<close>

fun write_uids :: "bytes \<Rightarrow> u64 \<Rightarrow> u64 list \<Rightarrow> bytes \<times> u64" where
  "write_uids buf lst [] = (buf, lst)"
| "write_uids buf lst (u # us) = write_uids (buf @ PutUvarint (u - lst)) u us"

function DecodeToBuffer_loop :: "u64 list \<Rightarrow> bytes \<Rightarrow> u64 \<Rightarrow> bytes" where
  "DecodeToBuffer_loop itr buf lst =
     (let got = min 64 (length itr) in
      if got = 0 then buf
      else (case write_uids buf lst (take got itr) of
              (buf', lst') \<Rightarrow> DecodeToBuffer_loop (drop got itr) buf' lst'))"
  by pat_completeness auto
termination
  by (relation "measure (\<lambda>(itr, buf, lst). length itr)") auto

declare DecodeToBuffer_loop.simps [simp del]

definition DecodeToBuffer :: "bytes \<Rightarrow> sroar_Bitmap \<Rightarrow> bytes" where
  "DecodeToBuffer buf bm = DecodeToBuffer_loop (sroar_ToArray bm) buf 0"

text \<open>
  \<open>FromBackup\<close>: the loop stops at the end of the buffer or at the first decoded 0, which is
  also what \<open>Uvarint\<close> returns on a malformed varint. \<open>buf[n:]\<close> is only reached with
  \<open>0 < n \<le> len(buf)\<close> (\<open>Uvarint_pos\<close>), which is also why the loop terminates.
\<close>

function FromBackup_loop :: "bytes \<Rightarrow> u64 \<Rightarrow> u64 list \<Rightarrow> u64 list" where
  "FromBackup_loop buf prev uids =
     (if length buf > 0 then
        (case Uvarint buf of
           (uid, n) \<Rightarrow>
             if uid = 0 then uids
             else FromBackup_loop (drop (nat n) buf) (prev + uid) (uids @ [prev + uid]))
      else uids)"
  by pat_completeness auto
termination
  apply (relation "measure (\<lambda>(buf, prev, uids). length buf)")
   apply simp
  subgoal premises prems for buf prev uids uid n
  proof -
    from prems have "Uvarint buf = (uid, n)" "uid \<noteq> 0" "0 < length buf" by simp_all
    with Uvarint_pos [of buf uid n] show ?thesis by simp
  qed
  done

declare FromBackup_loop.simps [simp del]

definition FromBackup :: "bytes \<Rightarrow> sroar_Bitmap" where
  "FromBackup buf = sroar_FromSortedList (FromBackup_loop buf 0 [])"

section \<open>posting/mvcc.go: data\<close>

type_synonym i64 = "64 word"

definition MaxUint64 :: u64 where
  "MaxUint64 = 0xFFFFFFFFFFFFFFFF"

text \<open>
  Modelled from the spec: the four user-meta codes of a stored value (\<open>SCHEMA\<close>, \<open>DELTA\<close>,
  \<open>COMPLETE\<close>, \<open>EMPTY\<close>), one byte each. \<open>posting/list.go\<close>, which declares them, is not
  among the sources; the values are the ones it gives them. The reader only compares a
  tag with them, so what matters is that they differ.
\<close>

definition BitSchemaPosting :: byte where
  "BitSchemaPosting = 0x01"

definition BitDeltaPosting :: byte where
  "BitDeltaPosting = 0x04"

definition BitCompletePosting :: byte where
  "BitCompletePosting = 0x08"

definition BitEmptyPosting :: byte where
  "BitEmptyPosting = 0x10"

datatype error =
    ErrTsTooOld
  | ErrInvalidKey
  | ErrDBClosed
  | ParseError
  | NilPostingList
  | ValueError
  | UnmarshalError
  | SchemaInPostingRead
  | UnexpectedMeta byte
  | RollupError

text \<open>\<open>pb.Posting\<close> and \<open>pb.PostingList\<close>, with the fields the reader touches.\<close>

record pb_Posting =
  Uid :: u64
  PostingValue :: bytes
  PostingCommitTs :: u64

record pb_PostingList =
  PlBitmap :: bytes
  Postings :: "pb_Posting list"
  CommitTs :: u64
  Splits :: "u64 list"

definition new_PostingList :: pb_PostingList where
  "new_PostingList = \<lparr>PlBitmap = [], Postings = [], CommitTs = 0, Splits = []\<rparr>"

text \<open>
  \<open>posting.List\<close>. A nil \<open>mutationMap\<close> and an empty one are the same map: the code only
  reads its length and writes entries.
\<close>

record posting_List =
  key :: bytes
  plist :: pb_PostingList
  mutationMap :: "u64 \<rightharpoonup> pb_PostingList"
  minTs :: u64
  maxTs :: u64

text \<open>
  A \<open>badger.Item\<close> under the iterator: one version of one key. \<open>ItemValue\<close> is what
  \<open>item.Value\<close> hands to its callback, \<open>None\<close> when the value cannot be read.
\<close>

record Item =
  Key :: bytes
  Version :: u64
  UserMeta :: byte
  IsDeletedOrExpired :: bool
  DiscardEarlierVersions :: bool
  ItemValue :: "bytes option"

text \<open>
  The KV store. \<open>entries\<close> holds every stored version, in badger's iteration order (keys
  ascending, versions of a key descending). \<open>SeekTs key readTs\<close> is the timestamp that
  \<open>Iterator.Seek(key)\<close> returns under a transaction at \<open>readTs\<close>, and \<open>ValidEntry\<close> is
  \<open>badger.ValidEntry\<close> for this store (true when it returns no error); both are badger's and
  left open.
\<close>

record badger_DB =
  IsClosed :: bool
  entries :: "Item list"
  SeekTs :: "bytes \<Rightarrow> u64 \<Rightarrow> u64"
  ValidEntry :: "bytes \<Rightarrow> bytes \<Rightarrow> bool"

text \<open>
  \<open>pstore.NewTransactionAt(readTs, false)\<close> followed by \<open>txn.NewKeyIterator(key, opts)\<close> with
  \<open>AllVersions\<close> and \<open>Seek(key)\<close>: the iterator runs over the versions whose key has the
  prefix \<open>key\<close>, and a transaction at \<open>readTs\<close> does not see a version above \<open>readTs\<close>. The
  iterator is the list of items from its position on; \<open>Valid\<close> is non-emptiness, \<open>Item\<close>
  the head and \<open>Next\<close> the tail.
\<close>

definition NewKeyIterator :: "badger_DB \<Rightarrow> u64 \<Rightarrow> bytes \<Rightarrow> Item list" where
  "NewKeyIterator db readTs k =
     filter (\<lambda>item. take (length k) (Key item) = k \<and> Version item \<le> readTs) (entries db)"

text \<open>
  Code of this repository that is not among the sources, taken as parameters: \<open>x.Parse\<close>
  (\<open>None\<close> when it fails), the generated \<open>PostingList.Unmarshal\<close> into a fresh message
  (\<open>None\<close> when it fails) and \<open>List.rollup\<close> (\<open>None\<close> when it fails); and with them
  ristretto's \<open>z.MemHash\<close>.
\<close>

record ParsedKey =
  HasStartUid :: bool

record rollupOutput =
  out_plist :: pb_PostingList
  newMinTs :: u64

record deps =
  Parse :: "bytes \<Rightarrow> ParsedKey option"
  Unmarshal :: "bytes \<Rightarrow> pb_PostingList option"
  rollup :: "posting_List \<Rightarrow> u64 \<Rightarrow> bool \<Rightarrow> rollupOutput option"
  MemHash :: "bytes \<Rightarrow> u64"

section \<open>posting/mvcc.go: the rollup queues\<close>

text \<open>
  \<open>pooledKeys\<close>: \<open>keysCh\<close> is a buffered channel of capacity 16, the list of batches waiting
  in it, oldest first. \<open>keysPool\<close> is a \<open>sync.Pool\<close> whose \<open>New\<close> makes an empty batch; the
  model keeps the pooled batches in a list, \<open>Get\<close> taking the one put last and an empty
  batch when there is none.
\<close>

record pooledKeys =
  keysCh :: "bytes list list"
  keysPool :: "bytes list list"

record incrRollupi =
  priorityKeys :: "pooledKeys list"
  count :: u64

definition Pool_Get :: "bytes list list \<Rightarrow> bytes list \<times> bytes list list" where
  "Pool_Get pool = (case pool of [] \<Rightarrow> ([], []) | b # rest \<Rightarrow> (b, rest))"

definition Pool_Put :: "bytes list list \<Rightarrow> bytes list \<Rightarrow> bytes list list" where
  "Pool_Put pool b = b # pool"

text \<open>
  \<open>addKeyToBatch\<close>. Indexing \<open>priorityKeys\<close> out of range panics. A full batch goes to the
  channel when it has room; otherwise its keys are dropped and the emptied batch goes
  back to the pool.
\<close>

definition addKeyToBatch :: "incrRollupi \<Rightarrow> bytes \<Rightarrow> nat \<Rightarrow> panic + incrRollupi" where
  "addKeyToBatch ir k priority =
     (if priority < length (priorityKeys ir) then
        (let rki = priorityKeys ir ! priority;
             (batch0, pool) = Pool_Get (keysPool rki);
             batch = batch0 @ [k]
         in if length batch < 16 then
              Inr (ir\<lparr>priorityKeys :=
                     (priorityKeys ir)[priority := rki\<lparr>keysPool := Pool_Put pool batch\<rparr>]\<rparr>)
            else if length (keysCh rki) < 16 then
              Inr (ir\<lparr>priorityKeys :=
                     (priorityKeys ir)[priority := rki\<lparr>keysCh := keysCh rki @ [batch],
                                                           keysPool := pool\<rparr>]\<rparr>)
            else
              Inr (ir\<lparr>priorityKeys :=
                     (priorityKeys ir)[priority := rki\<lparr>keysPool := Pool_Put pool []\<rparr>]\<rparr>))
      else Inl Panic)"


section \<open>posting/mvcc.go: ReadPostingList\<close>

definition unmarshalOrCopy :: "deps \<Rightarrow> pb_PostingList option \<Rightarrow> Item \<Rightarrow> error + pb_PostingList" where
  "unmarshalOrCopy d pl item =
     (case pl of
        None \<Rightarrow> Inl NilPostingList
      | Some p \<Rightarrow>
          (case ItemValue item of
             None \<Rightarrow> Inl ValueError
           | Some val \<Rightarrow>
               if length val = 0 then Inr p
               else (case Unmarshal d val of None \<Rightarrow> Inl UnmarshalError | Some p' \<Rightarrow> Inr p')))"

text \<open>
  The loop of \<open>ReadPostingList\<close>, from the iterator's position on. It returns what the
  function returns together with \<open>deltaCount\<close> as it stands at that moment, which is what
  the deferred function reads.
\<close>

fun ReadPostingList_loop ::
  "deps \<Rightarrow> Item list \<Rightarrow> posting_List \<Rightarrow> nat \<Rightarrow> (error + posting_List) \<times> nat" where
  "ReadPostingList_loop d [] l deltaCount = (Inr l, deltaCount)"
| "ReadPostingList_loop d (item # it) l deltaCount =
     (if Key item \<noteq> key l then (Inr l, deltaCount)
      else
        let l1 = l\<lparr>maxTs := max (maxTs l) (Version item)\<rparr> in
        if IsDeletedOrExpired item then (Inr l1, deltaCount)
        else if UserMeta item = BitEmptyPosting then
          (Inr (l1\<lparr>minTs := Version item\<rparr>), deltaCount)
        else if UserMeta item = BitCompletePosting then
          (case unmarshalOrCopy d (Some (plist l1)) item of
             Inl e \<Rightarrow> (Inl e, deltaCount)
           | Inr p \<Rightarrow> (Inr (l1\<lparr>plist := p, minTs := Version item\<rparr>), deltaCount))
        else if UserMeta item = BitDeltaPosting then
          (case ItemValue item of
             None \<Rightarrow> (Inl ValueError, deltaCount)
           | Some val \<Rightarrow>
               (case Unmarshal d val of
                  None \<Rightarrow> (Inl UnmarshalError, deltaCount)
                | Some pl0 \<Rightarrow>
                    let pl = pl0\<lparr>CommitTs := Version item,
                                 Postings := map (\<lambda>mpost. mpost\<lparr>PostingCommitTs := Version item\<rparr>)
                                               (Postings pl0)\<rparr>;
                        l2 = l1\<lparr>mutationMap := (mutationMap l1)(CommitTs pl \<mapsto> pl)\<rparr>
                    in if DiscardEarlierVersions item then (Inr l2, deltaCount + 1)
                       else ReadPostingList_loop d it l2 (deltaCount + 1)))
        else if UserMeta item = BitSchemaPosting then (Inl SchemaInPostingRead, deltaCount)
        else (Inl (UnexpectedMeta (UserMeta item)), deltaCount))"

text \<open>The list \<open>ReadPostingList\<close> starts from: the key and a new, empty \<open>pb.PostingList\<close>.\<close>

definition init_List :: "bytes \<Rightarrow> posting_List" where
  "init_List k = \<lparr>key = k, plist = new_PostingList, mutationMap = Map.empty, minTs = 0, maxTs = 0\<rparr>"

text \<open>
  The function deferred by \<open>ReadPostingList\<close>: it runs on every return after the
  \<open>defer\<close> statement, with the \<open>deltaCount\<close> reached.
\<close>

definition enqueue_for_rollup :: "incrRollupi \<Rightarrow> bytes \<Rightarrow> nat \<Rightarrow> panic + incrRollupi" where
  "enqueue_for_rollup ir k deltaCount =
     (if deltaCount > 0 then
        (if deltaCount > 500 then addKeyToBatch ir k 0 else addKeyToBatch ir k 1)
      else Inr ir)"

text \<open>
  \<open>ReadPostingList\<close> returns its result and the state of \<open>IncrRollup\<close> it leaves. The two
  early returns come before the \<open>defer\<close> statement.
\<close>

definition ReadPostingList ::
  "deps \<Rightarrow> incrRollupi \<Rightarrow> bytes \<Rightarrow> Item list
     \<Rightarrow> panic + ((error + posting_List) \<times> incrRollupi)" where
  "ReadPostingList d ir k it =
     (case Parse d k of
        None \<Rightarrow> Inr (Inl ParseError, ir)
      | Some pk \<Rightarrow>
          if HasStartUid pk then Inr (Inl ErrInvalidKey, ir)
          else
            let l = init_List k;
                (res, deltaCount) = ReadPostingList_loop d it l 0
            in (case enqueue_for_rollup ir k deltaCount of
                  Inl p \<Rightarrow> Inl p
                | Inr ir' \<Rightarrow> Inr (res, ir')))"



section \<open>posting/mvcc.go: getNew and the list cache\<close>

text \<open>
  Modelled from the spec: the list cache \<open>lCache\<close>, declared in a file that is not among
  the sources, is a mapping from a key to a full list or a sentinel timestamp, with
  \<open>get\<close>, \<open>set\<close> (unconditional) and \<open>set_if_present\<close> (install only if a slot currently
  exists). A slot holds a \<open>*List\<close> (possibly nil) or a \<open>uint64\<close>: the two kinds of value
  this package stores.
\<close>

datatype cache_val = CList "posting_List option" | CTs u64

type_synonym list_cache = "bytes \<rightharpoonup> cache_val"

definition Cache_Set :: "list_cache \<Rightarrow> bytes \<Rightarrow> cache_val \<Rightarrow> list_cache" where
  "Cache_Set c k v = c(k \<mapsto> v)"

definition SetIfPresent :: "list_cache \<Rightarrow> bytes \<Rightarrow> cache_val \<Rightarrow> list_cache" where
  "SetIfPresent c k v = (case c k of None \<Rightarrow> c | Some old \<Rightarrow> c(k \<mapsto> v))"

record posting_state =
  lCache :: list_cache
  IncrRollup :: incrRollupi

text \<open>\<open>copyList\<close>; \<open>x.AssertTrue\<close> ends the process when the list still has mutations.\<close>

definition copyList :: "posting_List \<Rightarrow> panic + posting_List" where
  "copyList l =
     (if mutationMap l = Map.empty then
        Inr \<lparr>key = key l, plist = plist l, mutationMap = Map.empty,
             minTs = minTs l, maxTs = maxTs l\<rparr>
      else Inl Panic)"

text \<open>
  The first half of \<open>getNew\<close>, the probe of the cache: either the cached list serves the
  read, or the read goes on to the store with the \<open>seenTs\<close> found (0 unless the slot holds
  a timestamp); on a miss the slot is set to 1 before the store is read.
\<close>

datatype probe = Cached posting_List | ReadStore u64

definition probe_cache :: "list_cache \<Rightarrow> bytes \<Rightarrow> u64 \<Rightarrow> probe \<times> list_cache" where
  "probe_cache c k readTs =
     (case c k of
        Some (CList (Some l)) \<Rightarrow> if maxTs l \<le> readTs then (Cached l, c) else (ReadStore 0, c)
      | Some (CList None) \<Rightarrow> (ReadStore 0, c)
      | Some (CTs val) \<Rightarrow> (ReadStore val, c)
      | None \<Rightarrow> (ReadStore 0, Cache_Set c k (CTs 1)))"

text \<open>
  The second half: the read of the store at \<open>readTs\<close>, the rollup of what was read, and the
  guarded write of the new list into the cache. \<open>seenTs\<close> is the value the probe found; the
  state is the one at this moment.
\<close>

definition newList :: "posting_List \<Rightarrow> rollupOutput \<Rightarrow> posting_List" where
  "newList l out = \<lparr>key = key l, plist = out_plist out, mutationMap = Map.empty,
                    minTs = newMinTs out, maxTs = maxTs l\<rparr>"

definition read_store ::
  "deps \<Rightarrow> badger_DB \<Rightarrow> posting_state \<Rightarrow> bytes \<Rightarrow> u64 \<Rightarrow> u64
     \<Rightarrow> panic + ((error + posting_List) \<times> posting_state)" where
  "read_store d pstore st k readTs seenTs =
     (let itr = NewKeyIterator pstore readTs k;
          latestTs = SeekTs pstore k readTs
      in case ReadPostingList d (IncrRollup st) k itr of
           Inl p \<Rightarrow> Inl p
         | Inr (res, ir') \<Rightarrow>
             let st1 = st\<lparr>IncrRollup := ir'\<rparr> in
             (case res of
                Inl e \<Rightarrow> Inr (Inl e, st1)
              | Inr l \<Rightarrow>
                  (case rollup d l MaxUint64 False of
                     None \<Rightarrow> Inr (Inl RollupError, st1)
                   | Some out \<Rightarrow>
                       if readTs \<ge> latestTs \<and> latestTs \<ge> seenTs then
                         Inr (Inr (newList l out),
                              st1\<lparr>lCache := SetIfPresent (lCache st1) k
                                                 (CList (Some (newList l out)))\<rparr>)
                       else Inr (Inr (newList l out), st1))))"

definition getNew ::
  "deps \<Rightarrow> badger_DB \<Rightarrow> posting_state \<Rightarrow> bytes \<Rightarrow> u64
     \<Rightarrow> panic + ((error + posting_List) \<times> posting_state)" where
  "getNew d pstore st k readTs =
     (if IsClosed pstore then Inr (Inl ErrDBClosed, st)
      else
        (case probe_cache (lCache st) k readTs of
           (Cached l, c) \<Rightarrow>
             (case copyList l of Inl p \<Rightarrow> Inl p | Inr lCopy \<Rightarrow> Inr (Inr lCopy, st))
         | (ReadStore seenTs, c) \<Rightarrow> read_store d pstore (st\<lparr>lCache := c\<rparr>) k readTs seenTs))"

section \<open>posting/mvcc.go: ToSkiplist\<close>

text \<open>
  An entry of the skiplist. \<open>y.KeyWithTs(k, ts)\<close> joins the key and the version into one
  storage key from which both are read back; the entry keeps the two apart. The builder
  appends: the skiplist is the list of entries in the order they were added.
\<close>

record ValueStruct =
  Value :: bytes
  VsUserMeta :: byte
  VsMeta :: byte

record sl_entry =
  e_key :: bytes
  e_version :: u64
  e_vs :: ValueStruct

text \<open>
  A transaction with its cache. \<open>deltas\<close> is a Go map from the key (a string, that is its
  bytes) to the delta; \<open>sl\<close> is nil until \<open>ToSkiplist\<close> has run.
\<close>

record Txn =
  StartTs :: u64
  deltas :: "bytes \<rightharpoonup> bytes"
  sl :: "sl_entry list option"

fun ToSkiplist_loop ::
  "badger_DB \<Rightarrow> (bytes \<rightharpoonup> bytes) \<Rightarrow> bytes list \<Rightarrow> sl_entry list \<Rightarrow> sl_entry list" where
  "ToSkiplist_loop pstore ds [] b = b"
| "ToSkiplist_loop pstore ds (k # keys) b =
     (let data = (case ds k of None \<Rightarrow> [] | Some v \<Rightarrow> v) in
      if length data = 0 then ToSkiplist_loop pstore ds keys b
      else if \<not> ValidEntry pstore k data then ToSkiplist_loop pstore ds keys b
      else ToSkiplist_loop pstore ds keys
             (b @ [\<lparr>e_key = k, e_version = MaxUint64,
                     e_vs = \<lparr>Value = data, VsUserMeta = BitDeltaPosting, VsMeta = 0\<rparr>\<rparr>]))"

text \<open>
  \<open>ToSkiplist\<close>: the keys of the map, sorted by \<open>sort.Strings\<close> (byte-wise lexicographic
  order, which is the order of lists of bytes), then the loop. It always returns nil.
\<close>

definition ToSkiplist :: "badger_DB \<Rightarrow> Txn \<Rightarrow> error option \<times> Txn" where
  "ToSkiplist pstore txn =
     (let keys = sorted_list_of_set (dom (deltas txn))
      in (None, txn\<lparr>sl := Some (ToSkiplist_loop pstore (deltas txn) keys [])\<rparr>))"

text \<open>
  For stating what the loop emits: the keys for which it adds an entry, and the entry it
  adds for a key.
\<close>

definition emitted :: "badger_DB \<Rightarrow> (bytes \<rightharpoonup> bytes) \<Rightarrow> bytes \<Rightarrow> bool" where
  "emitted pstore ds k =
     (case ds k of None \<Rightarrow> False | Some data \<Rightarrow> data \<noteq> [] \<and> ValidEntry pstore k data)"

definition delta_entry :: "(bytes \<rightharpoonup> bytes) \<Rightarrow> bytes \<Rightarrow> sl_entry" where
  "delta_entry ds k =
     \<lparr>e_key = k, e_version = MaxUint64,
      e_vs = \<lparr>Value = (case ds k of None \<Rightarrow> [] | Some v \<Rightarrow> v),
              VsUserMeta = BitDeltaPosting, VsMeta = 0\<rparr>\<rparr>"


section \<open>posting/mvcc.go: the rollup worker\<close>

text \<open>
  The part of \<open>Process\<close> that decides which keys are rolled up: the map \<open>m\<close> from the hash
  of a key to a timestamp, \<open>doRollup\<close> and the cleanup tick. The clock is the wall clock in
  nanoseconds since the epoch, an integer \<open>now\<close>; \<open>time.Now().Unix()\<close> is its whole
  seconds and \<open>time.Now().UnixNano()\<close> is the clock itself, both as \<open>int64\<close>. A missing
  entry of \<open>m\<close> reads as 0. \<open>rolled\<close> is not in the source: it lists the calls of
  \<open>rollupKey\<close>, each with its key and the clock at the call.
\<close>

definition Unix :: "int \<Rightarrow> i64" where
  "Unix now = word_of_int (now div 1000000000)"

definition UnixNano :: "int \<Rightarrow> i64" where
  "UnixNano now = word_of_int now"

record worker =
  m :: "u64 \<rightharpoonup> i64"
  rolled :: "(bytes \<times> int) list"

fun doRollup_keys :: "deps \<Rightarrow> int \<Rightarrow> i64 \<Rightarrow> bytes list \<Rightarrow> worker \<Rightarrow> worker" where
  "doRollup_keys d now currTs [] w = w"
| "doRollup_keys d now currTs (k # batch) w =
     (let hash = MemHash d k;
          elem = (case m w hash of None \<Rightarrow> 0 | Some ts \<Rightarrow> ts)
      in if currTs - elem <s 10 then doRollup_keys d now currTs batch w
         else doRollup_keys d now currTs batch
                (w\<lparr>m := (m w)(hash \<mapsto> currTs), rolled := rolled w @ [(k, now)]\<rparr>))"

definition doRollup :: "deps \<Rightarrow> int \<Rightarrow> bytes list \<Rightarrow> worker \<Rightarrow> worker" where
  "doRollup d now batch w = doRollup_keys d now (Unix now) batch w"

text \<open>
  The cleanup tick deletes the entries with \<open>currTs - ts \<ge> int64(10 * time.Second)\<close>, where
  \<open>10 * time.Second\<close> is 10000000000 and \<open>currTs\<close> is \<open>UnixNano\<close>.
\<close>

definition cleanupTick :: "int \<Rightarrow> worker \<Rightarrow> worker" where
  "cleanupTick now w =
     (let currTs = UnixNano now
      in w\<lparr>m := (\<lambda>hash. case m w hash of
                      None \<Rightarrow> None
                    | Some ts \<Rightarrow> if 10000000000 \<le>s currTs - ts then None else Some ts)\<rparr>)"

text \<open>The events of the worker's loop that touch \<open>m\<close>, each with the clock when it runs.\<close>

datatype event = Batch int "bytes list" | Cleanup int

fun step :: "deps \<Rightarrow> worker \<Rightarrow> event \<Rightarrow> worker" where
  "step d w (Batch now batch) = doRollup d now batch w"
| "step d w (Cleanup now) = cleanupTick now w"

definition Process :: "deps \<Rightarrow> event list \<Rightarrow> worker" where
  "Process d evs = foldl (step d) \<lparr>m = Map.empty, rolled = []\<rparr> evs"


text \<open>
  For stating what the map \<open>m\<close> achieves: a clock that fits \<open>int64\<close> nanoseconds, two calls
  of \<open>rollupKey\<close> being at least ten whole seconds apart when they are for the same key,
  an execution made of batches only, and the invariant that such an execution keeps
  (every timestamp in \<open>m\<close> is non-negative, every key rolled up has an entry in \<open>m\<close> that is
  no older than its rollup, and the calls so far are pairwise apart).
\<close>

definition clock_ok :: "int \<Rightarrow> bool" where
  "clock_ok now \<longleftrightarrow> 0 \<le> now \<and> now < 2 ^ 63"

definition apart :: "bytes \<times> int \<Rightarrow> bytes \<times> int \<Rightarrow> bool" where
  "apart a b \<longleftrightarrow>
     (fst a = fst b \<longrightarrow> 10 \<le> snd b div 1000000000 - snd a div 1000000000)"

definition only_batches :: "event list \<Rightarrow> bool" where
  "only_batches evs \<longleftrightarrow>
     list_all (\<lambda>e. case e of Batch now batch \<Rightarrow> clock_ok now | Cleanup now \<Rightarrow> False) evs"

definition dedup_inv :: "deps \<Rightarrow> worker \<Rightarrow> bool" where
  "dedup_inv d w \<longleftrightarrow>
     (\<forall>h ts. m w h = Some ts \<longrightarrow> 0 \<le> sint ts)
     \<and> (\<forall>k t. (k, t) \<in> set (rolled w) \<longrightarrow>
           (\<exists>ts. m w (MemHash d k) = Some ts \<and> t div 1000000000 \<le> sint ts))
     \<and> sorted_wrt apart (rolled w)"


section \<open>An instance for evaluation\<close>

text \<open>
  Concrete values for the parameters and the state, used to run the model: a key whose
  first byte is 0x04 parses as a part of a multi-part list (\<open>ByteSplit\<close> in \<open>x/keys.go\<close>),
  every payload decodes, and \<open>rollup\<close> keeps the list it is given. The store holds a delta
  at version 7 above a complete posting list at version 5 for the key \<open>[0, 0x61]\<close>;
  \<open>init_IncrRollup\<close> is \<open>IncrRollup\<close> as \<open>init()\<close> leaves it, and \<open>deltas_above_complete k n\<close>
  is an iterator over \<open>n\<close> deltas above a complete posting list.
\<close>

definition demo_deps :: deps where
  "demo_deps =
     \<lparr>Parse = (\<lambda>k. case k of [] \<Rightarrow> None | b # rest \<Rightarrow> Some \<lparr>HasStartUid = (b = 0x04)\<rparr>),
      Unmarshal = (\<lambda>val. Some (new_PostingList\<lparr>PlBitmap := val\<rparr>)),
      rollup = (\<lambda>l readTs emit. Some \<lparr>out_plist = plist l, newMinTs = minTs l\<rparr>),
      MemHash = (\<lambda>k. of_nat (length k))\<rparr>"

definition delta_item :: "bytes \<Rightarrow> u64 \<Rightarrow> Item" where
  "delta_item k v =
     \<lparr>Key = k, Version = v, UserMeta = BitDeltaPosting, IsDeletedOrExpired = False,
      DiscardEarlierVersions = False, ItemValue = Some [1]\<rparr>"

definition complete_item :: "bytes \<Rightarrow> u64 \<Rightarrow> Item" where
  "complete_item k v =
     \<lparr>Key = k, Version = v, UserMeta = BitCompletePosting, IsDeletedOrExpired = False,
      DiscardEarlierVersions = False, ItemValue = Some [2]\<rparr>"


definition demo_store :: badger_DB where
  "demo_store =
     \<lparr>IsClosed = False,
      entries = [delta_item [0, 0x61] 7, complete_item [0, 0x61] 5],
      SeekTs = (\<lambda>k readTs. 7),
      ValidEntry = (\<lambda>k v. length k \<le> 65000)\<rparr>"

definition init_IncrRollup :: incrRollupi where
  "init_IncrRollup =
     \<lparr>priorityKeys = [\<lparr>keysCh = [], keysPool = []\<rparr>, \<lparr>keysCh = [], keysPool = []\<rparr>],
      count = 0\<rparr>"

definition init_state :: posting_state where
  "init_state = \<lparr>lCache = Map.empty, IncrRollup = init_IncrRollup\<rparr>"

definition cached_at_3 :: posting_List where
  "cached_at_3 = \<lparr>key = [0, 0x61], plist = new_PostingList, mutationMap = Map.empty,
                   minTs = 3, maxTs = 3\<rparr>"


text \<open>
  Two transactions: one whose only delta sits under a key of 65001 bytes, which the
  store's \<open>ValidEntry\<close> refuses, and one with two non-empty deltas and an empty one.
\<close>

definition long_key :: bytes where
  "long_key = replicate 65001 0x61"

definition long_key_txn :: Txn where
  "long_key_txn = \<lparr>StartTs = 1, deltas = [long_key \<mapsto> [1]], sl = None\<rparr>"

definition three_key_txn :: Txn where
  "three_key_txn =
     \<lparr>StartTs = 1,
      deltas = [[0, 0x62] \<mapsto> [7], [0, 0x61] \<mapsto> [1], [0, 0x63] \<mapsto> []],
      sl = None\<rparr>"


section \<open>Lemmas about the delta-varint stream\<close>

lemma write_uids_append:
  "write_uids buf lst (us @ vs) = (case write_uids buf lst us of (b, l) \<Rightarrow> write_uids b l vs)"
  by (induction us arbitrary: buf lst) auto

lemma DecodeToBuffer_loop_eq: "DecodeToBuffer_loop itr buf lst = fst (write_uids buf lst itr)"
proof (induction itr buf lst rule: DecodeToBuffer_loop.induct)
  case (1 itr buf lst)
  show ?case
  proof (cases "itr = []")
    case True
    then show ?thesis by (subst DecodeToBuffer_loop.simps) simp
  next
    case False
    define got where "got = min 64 (length itr)"
    obtain b l where w: "write_uids buf lst (take got itr) = (b, l)" by force
    have g: "got \<noteq> 0" using False by (simp add: got_def)
    have "DecodeToBuffer_loop itr buf lst = DecodeToBuffer_loop (drop got itr) b l"
      using g w by (subst DecodeToBuffer_loop.simps) (simp add: got_def [symmetric] Let_def)
    also have "\<dots> = fst (write_uids b l (drop got itr))"
      using "1.IH" [OF got_def g w [symmetric]] .
    also have "\<dots> = fst (write_uids buf lst (take got itr @ drop got itr))"
      by (simp only: write_uids_append w prod.case)
    finally show ?thesis by simp
  qed
qed

lemma write_uids_prefix:
  "fst (write_uids buf lst us) = buf @ fst (write_uids [] lst us)"
proof (induction us arbitrary: buf lst)
  case Nil
  then show ?case by simp
next
  case (Cons u us)
  have "fst (write_uids buf lst (u # us))
      = (buf @ PutUvarint (u - lst)) @ fst (write_uids [] u us)"
    using Cons.IH [of "buf @ PutUvarint (u - lst)" u] by simp
  also have "\<dots> = buf @ fst (write_uids (PutUvarint (u - lst)) u us)"
    using Cons.IH [of "PutUvarint (u - lst)" u] by simp
  finally show ?case by simp
qed

lemma FromBackup_loop_write_uids:
  "sorted_wrt (<) (prev # us) \<Longrightarrow>
   FromBackup_loop (fst (write_uids [] prev us)) prev acc = acc @ us"
proof (induction us arbitrary: prev acc)
  case Nil
  show ?case by (subst FromBackup_loop.simps) simp
next
  case (Cons u us)
  define rest where "rest = fst (write_uids [] u us)"
  have buf: "fst (write_uids [] prev (u # us)) = PutUvarint (u - prev) @ rest"
    using write_uids_prefix [of "PutUvarint (u - prev)" u us] by (simp add: rest_def)
  have nz: "u - prev \<noteq> 0" using Cons.prems by auto
  have srt: "sorted_wrt (<) (u # us)" using Cons.prems by simp
  have "FromBackup_loop (PutUvarint (u - prev) @ rest) prev acc
      = FromBackup_loop rest u (acc @ [u])"
    using nz by (subst FromBackup_loop.simps) (simp add: Uvarint_PutUvarint PutUvarint_not_Nil)
  also have "\<dots> = (acc @ [u]) @ us"
    unfolding rest_def by (rule Cons.IH [OF srt])
  finally show ?case unfolding buf by simp
qed

section \<open>Lemmas about the reader and the cache\<close>

lemma Bit_distinct:
  "BitDeltaPosting \<noteq> BitEmptyPosting" "BitDeltaPosting \<noteq> BitCompletePosting"
  "BitDeltaPosting \<noteq> BitSchemaPosting"
  by (simp_all add: BitDeltaPosting_def BitEmptyPosting_def BitCompletePosting_def
      BitSchemaPosting_def)

lemma ReadPostingList_loop_key: 
  "ReadPostingList_loop d it l dc = (Inr l', dc') \<Longrightarrow> key l' = key l"
  by (induction it arbitrary: l dc)
     (auto simp: Let_def split: if_splits sum.splits option.splits)


lemma ReadPostingList_loop_maxTs:
  "\<forall>item \<in> set it. Version item \<le> t \<Longrightarrow> maxTs l \<le> t \<Longrightarrow>
   ReadPostingList_loop d it l dc = (Inr l', dc') \<Longrightarrow> maxTs l' \<le> t"
proof (induction it arbitrary: l dc)
  case Nil
  then show ?case by simp
next
  case (Cons a it)
  have rest: "\<forall>item \<in> set it. Version item \<le> t" using Cons.prems(1) by simp
  have m1: "max (maxTs l) (Version a) \<le> t" using Cons.prems(1,2) by simp
  have "maxTs l' \<le> t
      \<or> (\<exists>l2 dc2. maxTs l2 \<le> t \<and> ReadPostingList_loop d it l2 dc2 = (Inr l', dc'))"
  proof (cases "Key a = key l \<and> \<not> IsDeletedOrExpired a \<and> UserMeta a = BitDeltaPosting
      \<and> \<not> DiscardEarlierVersions a")
    case True
    then obtain val pl0 where v: "ItemValue a = Some val" "Unmarshal d val = Some pl0"
      using Cons.prems(3) by (auto simp: Let_def Bit_distinct split: option.splits)
    let ?l2 = "l\<lparr>maxTs := max (maxTs l) (Version a),
                 mutationMap := (mutationMap l)(Version a \<mapsto>
                   pl0\<lparr>CommitTs := Version a,
                       Postings := map (\<lambda>mpost. mpost\<lparr>PostingCommitTs := Version a\<rparr>)
                                     (Postings pl0)\<rparr>)\<rparr>"
    have "ReadPostingList_loop d it ?l2 (dc + 1) = (Inr l', dc')"
      using Cons.prems(3) True v by (simp add: Let_def Bit_distinct)
    moreover have "maxTs ?l2 \<le> t" using m1 by simp
    ultimately show ?thesis by blast
  next
    case False
    then show ?thesis
      using Cons.prems(2,3) m1
      by (auto simp: Let_def split: if_splits sum.splits option.splits)
  qed
  then show ?case using Cons.IH [OF rest] by blast
qed






lemma NewKeyIterator_versions:
  "\<forall>item \<in> set (NewKeyIterator db readTs k). Version item \<le> readTs"
  by (simp add: NewKeyIterator_def)

lemma ReadPostingList_maxTs:
  assumes "\<forall>item \<in> set it. Version item \<le> t"
    and "ReadPostingList d ir k it = Inr (Inr l, ir')"
  shows "maxTs l \<le> t"
proof -
  obtain res dc where r: "ReadPostingList_loop d it (init_List k) 0 = (res, dc)" by force
  have "res = Inr l"
    using assms(2) r unfolding ReadPostingList_def init_List_def
    by (auto split: option.splits if_splits sum.splits)
  with r have "ReadPostingList_loop d it (init_List k) 0 = (Inr l, dc)" by simp
  from ReadPostingList_loop_maxTs [OF assms(1) _ this] show ?thesis
    by (simp add: init_List_def)
qed

lemma read_store_result:
  assumes "read_store d pstore st k readTs seenTs = Inr (Inr l', st')"
  shows "\<exists>l ir' out. ReadPostingList d (IncrRollup st) k (NewKeyIterator pstore readTs k)
                        = Inr (Inr l, ir')
           \<and> rollup d l MaxUint64 False = Some out \<and> l' = newList l out"
  using assms unfolding read_store_def Let_def
  by (auto split: sum.splits option.splits if_splits prod.splits)

lemma read_store_maxTs:
  assumes "read_store d pstore st k readTs seenTs = Inr (Inr l', st')"
  shows "maxTs l' \<le> readTs"
proof -
  from read_store_result [OF assms] obtain l ir' out where
    r: "ReadPostingList d (IncrRollup st) k (NewKeyIterator pstore readTs k) = Inr (Inr l, ir')"
    and l': "l' = newList l out"
    by blast
  from ReadPostingList_maxTs [OF NewKeyIterator_versions r] have "maxTs l \<le> readTs" .
  with l' show ?thesis by (simp add: newList_def)
qed

lemma probe_cache_Cached:
  "probe_cache c k readTs = (Cached l, c') \<Longrightarrow> maxTs l \<le> readTs"
  by (auto simp: probe_cache_def split: option.splits cache_val.splits if_splits)

lemma read_store_cache:
  assumes "read_store d pstore st k readTs seenTs = Inr (res, st')"
  shows "lCache st' =
           (case res of
              Inl e \<Rightarrow> lCache st
            | Inr l \<Rightarrow>
                if SeekTs pstore k readTs \<le> readTs \<and> seenTs \<le> SeekTs pstore k readTs
                then SetIfPresent (lCache st) k (CList (Some l))
                else lCache st)"
  using assms unfolding read_store_def Let_def
  by (auto split: sum.splits option.splits if_splits prod.splits)

lemma probe_cache_ReadStore:
  assumes "probe_cache c0 k readTs = (ReadStore seenTs, c)"
  shows "seenTs = (case c0 k of Some (CTs v) \<Rightarrow> v | _ \<Rightarrow> 0)"
    and "c = (case c0 k of None \<Rightarrow> c0(k \<mapsto> CTs 1) | Some v \<Rightarrow> c0)"
    and "c k \<noteq> None"
  using assms
  by (auto simp: probe_cache_def Cache_Set_def split: option.splits cache_val.splits if_splits)


section \<open>Lemmas about ToSkiplist\<close>

lemma ToSkiplist_loop_eq:
  "ToSkiplist_loop pstore ds keys b = b @ map (delta_entry ds) (filter (emitted pstore ds) keys)"
  by (induction keys arbitrary: b)
     (auto simp: Let_def emitted_def delta_entry_def split: option.splits)

lemma e_key_delta_entry: "map e_key (map (delta_entry ds) ks) = ks"
  by (induction ks) (simp_all add: delta_entry_def)


section \<open>Lemmas about the rollup worker\<close>

lemma sint_Unix:
  assumes "clock_ok now"
  shows "sint (Unix now) = now div 1000000000"
proof -
  let ?q = "now div 1000000000"
  have "0 \<le> ?q" using assms by (simp add: clock_ok_def pos_imp_zdiv_nonneg_iff)
  moreover have "?q \<le> now"
    using zdiv_mono2 [of now 1 1000000000] assms by (simp add: clock_ok_def)
  ultimately have "- (2 ^ 63) \<le> ?q" "?q < 2 ^ 63"
    using assms by (simp_all add: clock_ok_def)
  then have "signed_take_bit 63 ?q = ?q" by (rule signed_take_bit_int_eq_self)
  then show ?thesis by (simp add: Unix_def sint_sbintrunc')
qed

lemma sint_diff_nonneg:
  fixes a b :: i64
  assumes "0 \<le> sint a" and "0 \<le> sint b"
  shows "sint (a - b) = sint a - sint b"
proof -
  have "sint a < 2 ^ 63" "sint b < 2 ^ 63"
    using sint_lt [of a] sint_lt [of b] by simp_all
  with assms have "- (2 ^ 63) \<le> sint a - sint b" "sint a - sint b < 2 ^ 63" by simp_all
  then have "signed_take_bit 63 (sint a - sint b) = sint a - sint b"
    by (rule signed_take_bit_int_eq_self)
  then show ?thesis by (simp add: sint_word_diff)
qed

lemma rollup_step_inv:
  assumes ok: "clock_ok now" and inv: "dedup_inv d w"
    and go: "\<not> (Unix now - (case m w (MemHash d k) of None \<Rightarrow> 0 | Some ts \<Rightarrow> ts) <s 10)"
  shows "dedup_inv d (w\<lparr>m := (m w)(MemHash d k \<mapsto> Unix now), rolled := rolled w @ [(k, now)]\<rparr>)"
proof -
  let ?h = "MemHash d k"
  let ?elem = "case m w ?h of None \<Rightarrow> 0 | Some ts \<Rightarrow> ts"
  let ?s = "now div 1000000000"
  have s: "sint (Unix now) = ?s" by (rule sint_Unix [OF ok])
  have s0: "0 \<le> ?s" using ok by (simp add: clock_ok_def pos_imp_zdiv_nonneg_iff)
  have e0: "0 \<le> sint ?elem"
    using inv by (auto simp: dedup_inv_def split: option.splits)
  have "sint (Unix now - ?elem) = ?s - sint ?elem"
    using sint_diff_nonneg [of "Unix now" ?elem] s s0 e0 by simp
  with go have gap: "10 \<le> ?s - sint ?elem" by (simp add: word_sless_alt)
  have earlier: "t div 1000000000 \<le> sint ?elem" if "(k', t) \<in> set (rolled w)" "MemHash d k' = ?h" for k' t
  proof -
    from inv that(1) obtain ts where "m w (MemHash d k') = Some ts" "t div 1000000000 \<le> sint ts"
      unfolding dedup_inv_def by blast
    with that(2) show ?thesis by simp
  qed
  have a: "\<forall>h ts. ((m w)(?h \<mapsto> Unix now)) h = Some ts \<longrightarrow> 0 \<le> sint ts"
    using inv s s0 by (auto simp: dedup_inv_def)
  have b: "\<forall>k' t. (k', t) \<in> set (rolled w @ [(k, now)]) \<longrightarrow>
      (\<exists>ts. ((m w)(?h \<mapsto> Unix now)) (MemHash d k') = Some ts \<and> t div 1000000000 \<le> sint ts)"
  proof (intro allI impI)
    fix k' t assume "(k', t) \<in> set (rolled w @ [(k, now)])"
    then consider (new) "k' = k" "t = now" | (old) "(k', t) \<in> set (rolled w)" by auto
    then show "\<exists>ts. ((m w)(?h \<mapsto> Unix now)) (MemHash d k') = Some ts \<and> t div 1000000000 \<le> sint ts"
    proof cases
      case new
      then show ?thesis using s by simp
    next
      case old
      show ?thesis
      proof (cases "MemHash d k' = ?h")
        case True
        from earlier [OF \<open>(k', t) \<in> set (rolled w)\<close> True] gap have "t div 1000000000 \<le> ?s" by simp
        with True s show ?thesis by simp
      next
        case False
        from inv \<open>(k', t) \<in> set (rolled w)\<close>
        obtain ts where "m w (MemHash d k') = Some ts" "t div 1000000000 \<le> sint ts"
          unfolding dedup_inv_def by blast
        with False show ?thesis by simp
      qed
    qed
  qed
  have "\<forall>y \<in> set (rolled w). apart y (k, now)"
  proof
    fix y assume y: "y \<in> set (rolled w)"
    obtain k' t where yk: "y = (k', t)" by (cases y)
    show "apart y (k, now)"
    proof (cases "k' = k")
      case True
      with y yk earlier [of k' t] gap have "10 \<le> ?s - t div 1000000000" by simp
      with yk show ?thesis by (simp add: apart_def)
    next
      case False
      with yk show ?thesis by (simp add: apart_def)
    qed
  qed
  moreover have "sorted_wrt apart (rolled w)" using inv by (simp add: dedup_inv_def)
  ultimately have c: "sorted_wrt apart (rolled w @ [(k, now)])"
    by (simp add: sorted_wrt_append)
  from a b c show ?thesis by (simp add: dedup_inv_def)
qed

lemma doRollup_keys_inv:
  "clock_ok now \<Longrightarrow> dedup_inv d w \<Longrightarrow> dedup_inv d (doRollup_keys d now (Unix now) batch w)"
proof (induction batch arbitrary: w)
  case Nil
  then show ?case by simp
next
  case (Cons k batch)
  show ?case
  proof (cases "Unix now - (case m w (MemHash d k) of None \<Rightarrow> 0 | Some ts \<Rightarrow> ts) <s 10")
    case True
    then show ?thesis using Cons by (simp add: Let_def)
  next
    case False
    from rollup_step_inv [OF Cons.prems(1,2) False]
    have "dedup_inv d (w\<lparr>m := (m w)(MemHash d k \<mapsto> Unix now), rolled := rolled w @ [(k, now)]\<rparr>)" .
    from Cons.IH [OF Cons.prems(1) this] False show ?thesis by (simp add: Let_def)
  qed
qed

lemma foldl_step_inv:
  "only_batches evs \<Longrightarrow> dedup_inv d w \<Longrightarrow> dedup_inv d (foldl (step d) w evs)"
proof (induction evs arbitrary: w)
  case Nil
  then show ?case by simp
next
  case (Cons e evs)
  from Cons.prems(1) obtain now batch where e: "e = Batch now batch" "clock_ok now"
    by (cases e) (auto simp: only_batches_def)
  have "only_batches evs" using Cons.prems(1) by (simp add: only_batches_def)
  moreover have "dedup_inv d (step d w e)"
    using e Cons.prems(2) by (simp add: doRollup_def doRollup_keys_inv)
  ultimately show ?case using Cons.IH by simp
qed


section \<open>Lemmas about the packed buffer\<close>














section \<open>Properties of the codec\<close>

text \<open>
  Claim C10. The accessors that take a list pointer accept nil and treat it as the empty
  list: \<open>GetUids(nil)\<close> is the empty slice, \<open>ListCardinality(nil)\<close> is 0, and
  \<open>FromList(nil)\<close> and \<open>FromListNoCopy(nil)\<close> are the empty bitmap. None of them can fail:
  the model of each is a total function with no error branch on this path.
\<close>

theorem codec_nil_total:
  "GetUids sr None = []
   \<and> ListCardinality sr None = 0
   \<and> FromList sr None = NewBitmap
   \<and> FromListNoCopy sr None = NewBitmap
   \<and> sroar_ToArray (FromList sr None) = []
   \<and> sroar_ToArray (FromListNoCopy sr None) = []"
  by (simp add: GetUids_def ListCardinality_def FromList_def FromListNoCopy_def
      NewBitmap_def sroar_ToArray_def)

text \<open>
  Claim C9. For \<open>from \<le> to\<close>, \<open>RemoveRange(bm, from, to)\<close> does not panic and leaves a
  bitmap that holds no UID of the closed interval \<open>[from, to]\<close> and exactly the UIDs of
  \<open>bm\<close> outside it.
\<close>

theorem RemoveRange_closed_interval:
  assumes "from \<le> to"
  shows "\<exists>bm'. RemoveRange bm from to = Inr bm'
           \<and> (\<forall>u. from \<le> u \<and> u \<le> to \<longrightarrow> u \<notin> bm')
           \<and> (\<forall>u. \<not> (from \<le> u \<and> u \<le> to) \<longrightarrow> (u \<in> bm') = (u \<in> bm))"
proof -
  have nopanic: "sroar_RemoveRange bm from to
      = Inr (Set.filter (\<lambda>u. \<not> (from \<le> u \<and> u < to)) bm)"
    using assms by (simp add: sroar_RemoveRange_def)
  define bm' where "bm' = sroar_Remove (Set.filter (\<lambda>u. \<not> (from \<le> u \<and> u < to)) bm) to"
  have res: "RemoveRange bm from to = Inr bm'"
    by (simp add: RemoveRange_def nopanic bm'_def)
  have mem: "u \<in> bm' \<longleftrightarrow> u \<in> bm \<and> \<not> (from \<le> u \<and> u < to) \<and> u \<noteq> to" for u
    by (simp add: bm'_def sroar_Remove_def)
  have inside: "\<forall>u. from \<le> u \<and> u \<le> to \<longrightarrow> u \<notin> bm'"
  proof (intro allI impI)
    fix u assume u: "from \<le> u \<and> u \<le> to"
    then have "u < to \<or> u = to" by (simp add: le_less)
    with u show "u \<notin> bm'" by (simp add: mem)
  qed
  have outside: "\<forall>u. \<not> (from \<le> u \<and> u \<le> to) \<longrightarrow> (u \<in> bm') = (u \<in> bm)"
  proof (intro allI impI)
    fix u assume u: "\<not> (from \<le> u \<and> u \<le> to)"
    with less_imp_le [of u to] have a: "\<not> (from \<le> u \<and> u < to)" by blast
    from u assms have b: "u \<noteq> to" by blast
    from a b show "(u \<in> bm') = (u \<in> bm)" by (simp add: mem)
  qed
  from res inside outside show ?thesis by blast
qed

theorem RemoveRange_closed_interval_witness:
  "(10::u64) \<le> 20
   \<and> (\<exists>bm'. RemoveRange {5, 10, 15, 20, 25} 10 20 = Inr bm'
        \<and> 10 \<notin> bm' \<and> 15 \<notin> bm' \<and> 20 \<notin> bm' \<and> 5 \<in> bm' \<and> 25 \<in> bm')"
proof -
  have h: "(10::u64) \<le> 20" by simp
  from RemoveRange_closed_interval [OF h, of "{5, 10, 15, 20, 25}"]
  obtain bm' where r: "RemoveRange {5, 10, 15, 20, 25} 10 20 = Inr bm'"
    and ins: "\<forall>u::u64. 10 \<le> u \<and> u \<le> 20 \<longrightarrow> u \<notin> bm'"
    and out: "\<forall>u::u64. \<not> (10 \<le> u \<and> u \<le> 20) \<longrightarrow> (u \<in> bm') = (u \<in> {5, 10, 15, 20, 25})"
    by blast
  have a: "10 \<notin> bm'" using ins by simp
  have b: "15 \<notin> bm'" using ins by simp
  have c: "20 \<notin> bm'" using ins by simp
  have d: "5 \<in> bm'" using out by simp
  have e: "25 \<in> bm'" using out by simp
  from h r a b c d e show ?thesis by simp
qed



text \<open>
  Claim C7. For a strictly ascending list of non-zero UIDs, \<open>FromBackup\<close> decodes the
  varint-delta stream that \<open>DecodeToBuffer\<close> writes (into an empty buffer, from the bitmap
  of these UIDs) to exactly these UIDs: the decoded list is the original one, and so is the
  \<open>ToArray\<close> of the returned bitmap.
\<close>

theorem FromBackup_DecodeToBuffer:
  assumes "sorted_wrt (<) uids" and "0 \<notin> set uids"
  shows "FromBackup_loop (DecodeToBuffer [] (sroar_FromSortedList uids)) 0 [] = uids
       \<and> sroar_ToArray (FromBackup (DecodeToBuffer [] (sroar_FromSortedList uids))) = uids"
proof -
  have sd: "sorted uids" "distinct uids"
    using assms(1) by (simp_all add: strict_sorted_iff)
  have arr: "sroar_ToArray (sroar_FromSortedList uids) = uids"
    using sd by (simp add: sroar_ToArray_def sroar_FromSortedList_def
        sorted_list_of_set.idem_if_sorted_distinct)
  have "\<forall>u \<in> set uids. 0 < u"
    using assms(2) by (auto simp: word_greater_zero_iff)
  then have s0: "sorted_wrt (<) (0 # uids)" using assms(1) by simp
  have dec: "FromBackup_loop (DecodeToBuffer [] (sroar_FromSortedList uids)) 0 [] = uids"
    using FromBackup_loop_write_uids [OF s0, of "[]"]
    by (simp add: DecodeToBuffer_def arr DecodeToBuffer_loop_eq)
  have "sroar_ToArray (FromBackup (DecodeToBuffer [] (sroar_FromSortedList uids)))
      = sroar_ToArray (sroar_FromSortedList uids)"
    by (simp add: FromBackup_def dec)
  with dec arr show ?thesis by simp
qed

theorem FromBackup_DecodeToBuffer_witness:
  "sorted_wrt (<) [1, 300, 70000 :: u64] \<and> 0 \<notin> set [1, 300, 70000 :: u64]
   \<and> FromBackup_loop (DecodeToBuffer [] (sroar_FromSortedList [1, 300, 70000])) 0 []
       = [1, 300, 70000]
   \<and> sroar_ToArray (FromBackup (DecodeToBuffer [] (sroar_FromSortedList [1, 300, 70000])))
       = [1, 300, 70000]"
  using FromBackup_DecodeToBuffer [of "[1, 300, 70000]"] by simp

section \<open>Properties of the reader and the cache\<close>

text \<open>
  Claim C1. Whenever \<open>getNew(key, readTs)\<close> returns a list and no error, the list's
  \<open>maxTs\<close> is at most \<open>readTs\<close>. On the cache path this is the guard on the cached list; on
  the store path \<open>maxTs\<close> is the largest version the reader saw, and the transaction at
  \<open>readTs\<close> shows no version above \<open>readTs\<close>.
\<close>

theorem getNew_maxTs:
  assumes "getNew d pstore st k readTs = Inr (Inr l, st')"
  shows "maxTs l \<le> readTs"
proof (cases "probe_cache (lCache st) k readTs")
  case (Pair pr c)
  have open_db: "\<not> IsClosed pstore"
    using assms by (auto simp: getNew_def)
  show ?thesis
  proof (cases pr)
    case (Cached l0)
    with Pair open_db assms have "copyList l0 = Inr l"
      by (auto simp: getNew_def split: sum.splits)
    then have "maxTs l = maxTs l0"
      by (auto simp: copyList_def split: if_splits)
    moreover have "maxTs l0 \<le> readTs"
      using Pair Cached by (auto dest: probe_cache_Cached)
    ultimately show ?thesis by simp
  next
    case (ReadStore seenTs)
    with Pair open_db assms
    have "read_store d pstore (st\<lparr>lCache := c\<rparr>) k readTs seenTs = Inr (Inr l, st')"
      by (simp add: getNew_def)
    then show ?thesis by (rule read_store_maxTs)
  qed
qed

theorem getNew_maxTs_witness:
  "(\<exists>l st'. getNew demo_deps demo_store init_state [0, 0x61] 10 = Inr (Inr l, st')
       \<and> maxTs l \<le> 10)
   \<and> (\<exists>l st'. getNew demo_deps demo_store
                  (init_state\<lparr>lCache := [[0, 0x61] \<mapsto> CList (Some cached_at_3)]\<rparr>) [0, 0x61] 10
                = Inr (Inr l, st')
       \<and> maxTs l \<le> 10)"
proof -
  have "\<exists>l st'. getNew demo_deps demo_store init_state [0, 0x61] 10 = Inr (Inr l, st')"
    by (simp add: getNew_def demo_store_def init_state_def probe_cache_def Cache_Set_def
        read_store_def NewKeyIterator_def delta_item_def complete_item_def
        ReadPostingList_def init_List_def demo_deps_def unmarshalOrCopy_def Let_def
        BitDeltaPosting_def BitCompletePosting_def BitEmptyPosting_def
        enqueue_for_rollup_def addKeyToBatch_def init_IncrRollup_def Pool_Get_def Pool_Put_def)
  then obtain l st' where
    a: "getNew demo_deps demo_store init_state [0, 0x61] 10 = Inr (Inr l, st')" by blast
  from getNew_maxTs [OF a] a have first:
    "\<exists>l st'. getNew demo_deps demo_store init_state [0, 0x61] 10 = Inr (Inr l, st')
       \<and> maxTs l \<le> 10"
    by blast
  have "\<exists>l st'. getNew demo_deps demo_store
                  (init_state\<lparr>lCache := [[0, 0x61] \<mapsto> CList (Some cached_at_3)]\<rparr>) [0, 0x61] 10
                = Inr (Inr l, st')"
    by (simp add: getNew_def demo_store_def init_state_def probe_cache_def cached_at_3_def
        copyList_def)
  then obtain l2 st2 where
    b: "getNew demo_deps demo_store
          (init_state\<lparr>lCache := [[0, 0x61] \<mapsto> CList (Some cached_at_3)]\<rparr>) [0, 0x61] 10
        = Inr (Inr l2, st2)" by blast
  from getNew_maxTs [OF b] b have second:
    "\<exists>l st'. getNew demo_deps demo_store
                  (init_state\<lparr>lCache := [[0, 0x61] \<mapsto> CList (Some cached_at_3)]\<rparr>) [0, 0x61] 10
                = Inr (Inr l, st')
       \<and> maxTs l \<le> 10"
    by blast
  from first second show ?thesis by blast
qed

text \<open>
  Claim C2. For a key that parses with \<open>HasStartUid\<close> set, \<open>ReadPostingList\<close> returns
  \<open>ErrInvalidKey\<close> and no list, and leaves \<open>IncrRollup\<close> as it was: nothing is enqueued at
  either priority.
\<close>

theorem ReadPostingList_split_key:
  assumes "Parse d k = Some pk" and "HasStartUid pk"
  shows "ReadPostingList d ir k it = Inr (Inl ErrInvalidKey, ir)"
  using assms by (simp add: ReadPostingList_def)

theorem ReadPostingList_split_key_witness:
  "Parse demo_deps [0x04, 0x61] = Some \<lparr>HasStartUid = True\<rparr>
   \<and> HasStartUid \<lparr>HasStartUid = True\<rparr>
   \<and> ReadPostingList demo_deps init_IncrRollup [0x04, 0x61] [delta_item [0x04, 0x61] 7]
       = Inr (Inl ErrInvalidKey, init_IncrRollup)"
proof -
  have p: "Parse demo_deps [0x04, 0x61] = Some \<lparr>HasStartUid = True\<rparr>"
    by (simp add: demo_deps_def)
  have h: "HasStartUid \<lparr>HasStartUid = True\<rparr>" by simp
  from ReadPostingList_split_key [OF p h] p h show ?thesis by simp
qed

text \<open>
  Claim C4. When \<open>getNew\<close> goes to the store, \<open>seenTs\<close> is the timestamp found in the cache
  slot before the read (0 when the slot holds none), and \<open>c\<close> is the cache as the probe
  leaves it. With \<open>latestTs\<close> the value \<open>Seek\<close> returns: the cache is changed after the
  probe only if \<open>readTs \<ge> latestTs\<close> and \<open>latestTs \<ge> seenTs\<close>; when both hold and a list
  is returned, the slot holds that list; and when \<open>seenTs > latestTs\<close> the cache is left
  as the probe left it. (\<open>read_store_cache\<close> states the same for any cache contents at the
  time of the write, as when another goroutine has written in between.)
\<close>

theorem getNew_cache_install:
  assumes "\<not> IsClosed pstore"
    and "probe_cache (lCache st) k readTs = (ReadStore seenTs, c)"
    and "getNew d pstore st k readTs = Inr (res, st')"
  shows "seenTs = (case lCache st k of Some (CTs v) \<Rightarrow> v | _ \<Rightarrow> 0)
       \<and> c = (case lCache st k of None \<Rightarrow> (lCache st)(k \<mapsto> CTs 1) | Some v \<Rightarrow> lCache st)
       \<and> (lCache st' \<noteq> c \<longrightarrow>
            SeekTs pstore k readTs \<le> readTs \<and> seenTs \<le> SeekTs pstore k readTs)
       \<and> (\<forall>l. res = Inr l \<and> SeekTs pstore k readTs \<le> readTs \<and> seenTs \<le> SeekTs pstore k readTs
              \<longrightarrow> lCache st' = c(k \<mapsto> CList (Some l)))
       \<and> (SeekTs pstore k readTs < seenTs \<longrightarrow> lCache st' = c)"
proof -
  have rs: "read_store d pstore (st\<lparr>lCache := c\<rparr>) k readTs seenTs = Inr (res, st')"
    using assms by (simp add: getNew_def)
  note pc = probe_cache_ReadStore [OF assms(2)]
  have cache: "lCache st' =
      (case res of
         Inl e \<Rightarrow> c
       | Inr l \<Rightarrow>
           if SeekTs pstore k readTs \<le> readTs \<and> seenTs \<le> SeekTs pstore k readTs
           then SetIfPresent c k (CList (Some l))
           else c)"
    using read_store_cache [OF rs] by (cases res) simp_all
  have sip: "SetIfPresent c k v = c(k \<mapsto> v)" for v
    using pc(3) by (auto simp: SetIfPresent_def)
  have only_when: "lCache st' \<noteq> c \<longrightarrow>
      SeekTs pstore k readTs \<le> readTs \<and> seenTs \<le> SeekTs pstore k readTs"
    using cache by (auto split: sum.splits if_splits)
  have installs: "\<forall>l. res = Inr l \<and> SeekTs pstore k readTs \<le> readTs
      \<and> seenTs \<le> SeekTs pstore k readTs \<longrightarrow> lCache st' = c(k \<mapsto> CList (Some l))"
    using cache sip by auto
  have declines: "SeekTs pstore k readTs < seenTs \<longrightarrow> lCache st' = c"
    using cache by (auto split: sum.splits)
  from pc(1,2) only_when installs declines show ?thesis by blast
qed

theorem getNew_cache_install_witness:
  "\<not> IsClosed demo_store
   \<and> probe_cache [[0, 0x61] \<mapsto> CTs 50] [0, 0x61] 60 = (ReadStore 50, [[0, 0x61] \<mapsto> CTs 50])
   \<and> SeekTs demo_store [0, 0x61] 60 < 50
   \<and> (\<exists>res st'. getNew demo_deps demo_store
                    (init_state\<lparr>lCache := [[0, 0x61] \<mapsto> CTs 50]\<rparr>) [0, 0x61] 60 = Inr (res, st')
          \<and> lCache st' = [[0, 0x61] \<mapsto> CTs 50])"
proof -
  let ?c = "[[0, 0x61 :: byte] \<mapsto> CTs 50]"
  let ?st = "init_state\<lparr>lCache := ?c\<rparr>"
  have o: "\<not> IsClosed demo_store" by (simp add: demo_store_def)
  have p: "probe_cache (lCache ?st) [0, 0x61] 60 = (ReadStore 50, ?c)"
    by (simp add: probe_cache_def)
  have s: "SeekTs demo_store [0, 0x61] 60 < 50" by (simp add: demo_store_def)
  have "\<exists>res st'. getNew demo_deps demo_store ?st [0, 0x61] 60 = Inr (res, st')"
    by (simp add: getNew_def demo_store_def init_state_def probe_cache_def Cache_Set_def
        read_store_def NewKeyIterator_def delta_item_def complete_item_def
        ReadPostingList_def init_List_def demo_deps_def unmarshalOrCopy_def Let_def
        BitDeltaPosting_def BitCompletePosting_def BitEmptyPosting_def
        enqueue_for_rollup_def addKeyToBatch_def init_IncrRollup_def Pool_Get_def Pool_Put_def)
  then obtain res st' where
    g: "getNew demo_deps demo_store ?st [0, 0x61] 60 = Inr (res, st')" by blast
  from getNew_cache_install [OF o p g] s have "lCache st' = ?c" by blast
  with o p s g show ?thesis by (simp del: fun_upd_apply)
qed



section \<open>Properties of ToSkiplist and of the rollup worker\<close>

text \<open>
  Claim C3, as stated, fails: a key whose delta is non-empty gets no entry when
  \<open>badger.ValidEntry\<close> refuses the entry; \<open>ToSkiplist\<close> logs it and goes on. Here the
  transaction's only delta is non-empty and the skiplist is empty.
\<close>

theorem ToSkiplist_skips_invalid_entry:
  "deltas long_key_txn long_key = Some [1]
   \<and> \<not> ValidEntry demo_store long_key [1]
   \<and> ToSkiplist demo_store long_key_txn = (None, long_key_txn\<lparr>sl := Some []\<rparr>)"
  by (simp add: long_key_txn_def ToSkiplist_def demo_store_def long_key_def)

text \<open>
  Claim C3, amended. \<open>ToSkiplist\<close> returns nil, and the skiplist it attaches has exactly
  one entry for each key of the deltas whose delta is non-empty and passes
  \<open>badger.ValidEntry\<close>; the entries are in strictly ascending order of the key's bytes, and
  each is at version \<open>MaxUint64\<close> with user-meta \<open>BitDeltaPosting\<close> and the key's delta as
  its value.
\<close>

theorem ToSkiplist_entries:
  assumes "finite (dom (deltas txn))"
  shows "\<exists>es. ToSkiplist pstore txn = (None, txn\<lparr>sl := Some es\<rparr>)
           \<and> sorted_wrt (<) (map e_key es)
           \<and> set (map e_key es)
               = {k. \<exists>data. deltas txn k = Some data \<and> data \<noteq> [] \<and> ValidEntry pstore k data}
           \<and> (\<forall>e \<in> set es. e_version e = MaxUint64
                  \<and> VsUserMeta (e_vs e) = BitDeltaPosting
                  \<and> deltas txn (e_key e) = Some (Value (e_vs e)))"
proof -
  let ?ds = "deltas txn"
  let ?keys = "sorted_list_of_set (dom ?ds)"
  let ?es = "map (delta_entry ?ds) (filter (emitted pstore ?ds) ?keys)"
  have run: "ToSkiplist pstore txn = (None, txn\<lparr>sl := Some ?es\<rparr>)"
    by (simp add: ToSkiplist_def ToSkiplist_loop_eq)
  have keys: "map e_key ?es = filter (emitted pstore ?ds) ?keys"
    by (rule e_key_delta_entry)
  have "sorted_wrt (<) ?keys"
    by (simp add: strict_sorted_iff)
  then have srt: "sorted_wrt (<) (map e_key ?es)"
    unfolding keys by (rule sorted_wrt_filter)
  have "set (map e_key ?es) = {k \<in> dom ?ds. emitted pstore ?ds k}"
    unfolding keys using assms by simp
  also have "\<dots> = {k. \<exists>data. ?ds k = Some data \<and> data \<noteq> [] \<and> ValidEntry pstore k data}"
    by (auto simp: emitted_def split: option.splits)
  finally have st: "set (map e_key ?es)
      = {k. \<exists>data. ?ds k = Some data \<and> data \<noteq> [] \<and> ValidEntry pstore k data}" .
  have each: "\<forall>e \<in> set ?es. e_version e = MaxUint64
      \<and> VsUserMeta (e_vs e) = BitDeltaPosting \<and> ?ds (e_key e) = Some (Value (e_vs e))"
    by (auto simp: delta_entry_def emitted_def split: option.splits)
  from run srt st each show ?thesis by blast
qed

theorem ToSkiplist_entries_witness:
  "finite (dom (deltas three_key_txn))
   \<and> (\<exists>es. ToSkiplist demo_store three_key_txn = (None, three_key_txn\<lparr>sl := Some es\<rparr>)
         \<and> sorted_wrt (<) (map e_key es)
         \<and> set (map e_key es) = {[0, 0x61], [0, 0x62]})"
proof -
  have f: "finite (dom (deltas three_key_txn))"
    by (simp add: three_key_txn_def)
  have s: "{k. \<exists>data. deltas three_key_txn k = Some data \<and> data \<noteq> []
                 \<and> ValidEntry demo_store k data} = {[0, 0x61], [0, 0x62]}"
    by (auto simp: three_key_txn_def demo_store_def split: if_splits)
  from ToSkiplist_entries [OF f, of demo_store] f show ?thesis
    unfolding s by blast
qed

text \<open>
  Claim C8 fails on the code. The cleanup tick compares \<open>UnixNano\<close> with the map's
  timestamps, which are \<open>Unix\<close> seconds, against ten seconds in nanoseconds, so it deletes
  every entry, however recent. Here a key is rolled up, a cleanup tick comes one second
  later, and the key is rolled up again two seconds after the first time.
\<close>

theorem cleanup_forgets_recent_rollup:
  "rolled (Process d [Batch 1700000000000000000 [[0, 0x61]],
                      Cleanup 1700000001000000000,
                      Batch 1700000002000000000 [[0, 0x61]]])
     = [([0, 0x61], 1700000000000000000), ([0, 0x61], 1700000002000000000)]"
  by (simp add: Process_def doRollup_def cleanupTick_def Unix_def UnixNano_def Let_def
      word_sless_alt word_sle_eq)

text \<open>
  Without the cleanup tick the second batch skips the key; and in every execution made
  of batches only, whatever the keys, the hash and the clock (within \<open>int64\<close>
  nanoseconds), any two calls of \<open>rollupKey\<close> for the same key are at least ten whole
  seconds apart.
\<close>

lemma no_cleanup_dedups:
  "rolled (Process d [Batch 1700000000000000000 [[0, 0x61]],
                      Batch 1700000002000000000 [[0, 0x61]]])
     = [([0, 0x61], 1700000000000000000)]"
  by (simp add: Process_def doRollup_def cleanupTick_def Unix_def UnixNano_def Let_def
      word_sless_alt word_sle_eq)

lemma batches_only_dedup:
  assumes "only_batches evs"
  shows "sorted_wrt apart (rolled (Process d evs))"
proof -
  have "dedup_inv d \<lparr>m = Map.empty, rolled = []\<rparr>" by (simp add: dedup_inv_def)
  from foldl_step_inv [OF assms this] show ?thesis
    by (simp add: Process_def dedup_inv_def)
qed

end
